theory Spec2Isabelle
  imports Main "HOL-Library.Word"
begin

section \<open>The browser-automation boundary\<close>

text \<open>
  The script \<^verbatim>\<open>jules-scratch/verification/verify_ui_ux.py\<close> is a straight line of calls
  into the Playwright library. The library, the browser and the application under test are
  outside the repository, so they are a parameter of the model: an environment decides, for
  every call and the history of calls made before it, whether the call returns or raises, and
  which image data a capture renders. The script's own control flow (sequencing, exception
  propagation, \<^verbatim>\<open>try\<close>/\<^verbatim>\<open>finally\<close>, the \<^verbatim>\<open>with\<close> block) is modelled as written.
\<close>

type_synonym path = string
type_synonym selector = string
type_synonym bytes = "8 word list"

text \<open>One constructor per library call the script makes.\<close>

datatype call =
    SyncPlaywrightEnter
  | SyncPlaywrightExit
  | Launch bool
  | NewContext
  | NewPage
  | Goto string
  | WaitForSelector selector
  | Click selector
  | Locator selector
  | LocatorClick selector
  | PageScreenshot path
  | LocatorScreenshot selector path
  | BrowserClose

text \<open>The exception a failing call raises; it remembers the call that raised it.\<close>

datatype error = Raised call

record env =
  succeeds :: "call list \<Rightarrow> call \<Rightarrow> bool"
  rendered :: "call list \<Rightarrow> call \<Rightarrow> bytes"

text \<open>
  The observable state: the files on disk and the log of calls attempted so far, each with
  its outcome (\<open>True\<close>: returned, \<open>False\<close>: raised).
\<close>

record world =
  files :: "path \<rightharpoonup> bytes"
  log :: "(call \<times> bool) list"

type_synonym 'a prog = "world \<Rightarrow> (error + 'a) \<times> world"

definition initial :: "(path \<rightharpoonup> bytes) \<Rightarrow> world" where
  "initial fs = \<lparr>files = fs, log = []\<rparr>"

definition history :: "world \<Rightarrow> call list" where
  "history w = map fst (log w)"

text \<open>A capture call names the file it writes; no other call touches the disk.\<close>

fun capture_path :: "call \<Rightarrow> path option" where
  "capture_path (PageScreenshot p) = Some p"
| "capture_path (LocatorScreenshot s p) = Some p"
| "capture_path _ = None"

text \<open>
  Every path the script captures to ends in \<^verbatim>\<open>.png\<close>, so the library encodes the image as
  PNG: the file a capture writes is the eight-byte PNG signature followed by the image data
  the environment renders. Such a file is never empty.
\<close>

definition png_signature :: bytes where
  "png_signature = [0x89, 0x50, 0x4E, 0x47, 0x0D, 0x0A, 0x1A, 0x0A]"

definition capture_file :: "env \<Rightarrow> call list \<Rightarrow> call \<Rightarrow> bytes" where
  "capture_file E h c = png_signature @ rendered E h c"

text \<open>
  A capture that returns has written its image to its path, replacing any file already
  there; a capture that raises has written nothing.
\<close>

definition effect :: "env \<Rightarrow> call list \<Rightarrow> call \<Rightarrow> (path \<rightharpoonup> bytes) \<Rightarrow> (path \<rightharpoonup> bytes)" where
  "effect E h c fs = (case capture_path c of None \<Rightarrow> fs | Some p \<Rightarrow> fs(p \<mapsto> capture_file E h c))"

definition perform :: "env \<Rightarrow> call \<Rightarrow> unit prog" where
  "perform E c w =
     (let h = history w in
      if succeeds E h c
      then (Inr (), \<lparr>files = effect E h c (files w), log = log w @ [(c, True)]\<rparr>)
      else (Inl (Raised c), \<lparr>files = files w, log = log w @ [(c, False)]\<rparr>))"

subsection \<open>Python's control flow\<close>

text \<open>Statement sequencing: an exception skips the rest.\<close>

definition and_then :: "'a prog \<Rightarrow> ('a \<Rightarrow> 'b prog) \<Rightarrow> 'b prog" where
  "and_then m k w = (case m w of (Inl e, w') \<Rightarrow> (Inl e, w') | (Inr x, w') \<Rightarrow> k x w')"

definition next_do :: "unit prog \<Rightarrow> 'b prog \<Rightarrow> 'b prog" where
  "next_do m k = and_then m (\<lambda>_. k)"

definition return_value :: "'a \<Rightarrow> 'a prog" where
  "return_value x w = (Inr x, w)"

text \<open>
  \<^verbatim>\<open>try: body finally: fin\<close>: the cleanup runs however the body ends. If the cleanup
  raises, its exception is the one that propagates; otherwise the body's outcome stands.
\<close>

definition try_finally :: "'a prog \<Rightarrow> unit prog \<Rightarrow> 'a prog" where
  "try_finally body fin w =
     (case body w of (r, w') \<Rightarrow>
        (case fin w' of (Inl e, w'') \<Rightarrow> (Inl e, w'') | (Inr _, w'') \<Rightarrow> (r, w'')))"

subsection \<open>The library calls as the script writes them\<close>

text \<open>
  The script holds one browser, one context and one page, each the result of the call that
  acquires it; the model leaves these three handles implicit and names each call after the
  object it is made on.
\<close>

definition chromium_launch :: "env \<Rightarrow> bool \<Rightarrow> unit prog" where
  "chromium_launch E headless = perform E (Launch headless)"

definition browser_new_context :: "env \<Rightarrow> unit prog" where
  "browser_new_context E = perform E NewContext"

definition context_new_page :: "env \<Rightarrow> unit prog" where
  "context_new_page E = perform E NewPage"

definition page_goto :: "env \<Rightarrow> string \<Rightarrow> unit prog" where
  "page_goto E url = perform E (Goto url)"

definition page_wait_for_selector :: "env \<Rightarrow> selector \<Rightarrow> unit prog" where
  "page_wait_for_selector E s = perform E (WaitForSelector s)"

definition page_click :: "env \<Rightarrow> selector \<Rightarrow> unit prog" where
  "page_click E s = perform E (Click s)"

definition page_screenshot :: "env \<Rightarrow> path \<Rightarrow> unit prog" where
  "page_screenshot E p = perform E (PageScreenshot p)"

text \<open>\<^verbatim>\<open>page.locator(s)\<close> returns a handle on the selector.\<close>

definition page_locator :: "env \<Rightarrow> selector \<Rightarrow> selector prog" where
  "page_locator E s = next_do (perform E (Locator s)) (return_value s)"

definition locator_screenshot :: "env \<Rightarrow> selector \<Rightarrow> path \<Rightarrow> unit prog" where
  "locator_screenshot E loc p = perform E (LocatorScreenshot loc p)"

definition locator_click :: "env \<Rightarrow> selector \<Rightarrow> unit prog" where
  "locator_click E loc = perform E (LocatorClick loc)"

definition browser_close :: "env \<Rightarrow> unit prog" where
  "browser_close E = perform E BrowserClose"

section \<open>The script\<close>

definition main_page_png :: path where
  "main_page_png = ''jules-scratch/verification/01_main_page.png''"

definition header_png :: path where
  "header_png = ''jules-scratch/verification/02_header.png''"

definition image_grid_png :: path where
  "image_grid_png = ''jules-scratch/verification/03_image_grid.png''"

definition upload_form_png :: path where
  "upload_form_png = ''jules-scratch/verification/04_upload_form.png''"

definition image_modal_png :: path where
  "image_modal_png = ''jules-scratch/verification/05_image_modal.png''"

text \<open>The body of the \<^verbatim>\<open>try\<close> block, lines 10 to 34.\<close>

definition run_body :: "env \<Rightarrow> unit prog" where
  "run_body E =
     next_do (page_goto E ''http://localhost:5173'')
    (next_do (page_wait_for_selector E ''text=Visuals'')
    (next_do (page_screenshot E main_page_png)
    (and_then (page_locator E ''header'') (\<lambda>header.
     next_do (locator_screenshot E header header_png)
    (and_then (page_locator E ''.grid'') (\<lambda>image_grid.
     next_do (locator_screenshot E image_grid image_grid_png)
    (next_do (page_click E ''text=Upload'')
    (next_do (page_wait_for_selector E ''text=Upload Images'')
    (and_then (page_locator E ''main'') (\<lambda>upload_form.
     next_do (locator_screenshot E upload_form upload_form_png)
    (next_do (page_click E ''text=Gallery'')
    (next_do (page_wait_for_selector E ''.grid'')
    (and_then (page_locator E ''.grid > div:first-child'') (\<lambda>first_child.
     next_do (locator_click E first_child)
    (next_do (page_wait_for_selector E ''h2'')
    (and_then (page_locator E ''div[role='dialog']'') (\<lambda>modal.
     locator_screenshot E modal image_modal_png)))))))))))))))))"

text \<open>\<^verbatim>\<open>run\<close>, lines 3 to 37: three acquisitions, then the guarded body.\<close>

definition run :: "env \<Rightarrow> unit prog" where
  "run E =
     next_do (chromium_launch E True)
    (next_do (browser_new_context E)
    (next_do (context_new_page E)
    (try_finally (run_body E) (browser_close E))))"

text \<open>
  Lines 39 and 40: the \<^verbatim>\<open>with\<close> block. Leaving it calls the manager's exit, which does
  not swallow an exception; an exception that reaches the top level ends the process with
  status 1, a normal end with status 0.
\<close>

definition with_sync_playwright :: "env \<Rightarrow> unit prog \<Rightarrow> unit prog" where
  "with_sync_playwright E body =
     next_do (perform E SyncPlaywrightEnter) (try_finally body (perform E SyncPlaywrightExit))"

definition script :: "env \<Rightarrow> world \<Rightarrow> int \<times> world" where
  "script E w =
     (case with_sync_playwright E (run E) w of
        (Inl e, w') \<Rightarrow> (1, w')
      | (Inr _, w') \<Rightarrow> (0, w'))"

section \<open>The script as a list of calls\<close>

text \<open>
  Every statement of \<^verbatim>\<open>run\<close> is one library call whose result, if any, is only passed to
  the next call. So the body is also the list of its calls, performed in order until one
  raises. The equivalence with \<open>run_body\<close> is proved below (\<open>run_body_steps\<close>).
\<close>

fun perform_all :: "env \<Rightarrow> call list \<Rightarrow> unit prog" where
  "perform_all E [] w = (Inr (), w)"
| "perform_all E (c # cs) w =
     (case perform E c w of (Inl e, w') \<Rightarrow> (Inl e, w') | (Inr _, w') \<Rightarrow> perform_all E cs w')"

definition setup_steps :: "call list" where
  "setup_steps = [Launch True, NewContext, NewPage]"

definition page_steps :: "call list" where
  "page_steps =
     [Goto ''http://localhost:5173'',
      WaitForSelector ''text=Visuals'',
      PageScreenshot main_page_png,
      Locator ''header'',
      LocatorScreenshot ''header'' header_png,
      Locator ''.grid'',
      LocatorScreenshot ''.grid'' image_grid_png,
      Click ''text=Upload'',
      WaitForSelector ''text=Upload Images'',
      Locator ''main'',
      LocatorScreenshot ''main'' upload_form_png,
      Click ''text=Gallery'',
      WaitForSelector ''.grid'',
      Locator ''.grid > div:first-child'',
      LocatorClick ''.grid > div:first-child'',
      WaitForSelector ''h2'',
      Locator ''div[role='dialog']'',
      LocatorScreenshot ''div[role='dialog']'' image_modal_png]"

text \<open>The calls of the whole script in program order, the two cleanup calls apart.\<close>

definition script_steps :: "call list" where
  "script_steps = SyncPlaywrightEnter # setup_steps @ page_steps"

text \<open>How many calls of a list return before the first one raises, from history \<open>h\<close>.\<close>

fun successes :: "env \<Rightarrow> call list \<Rightarrow> call list \<Rightarrow> nat" where
  "successes E h [] = 0"
| "successes E h (c # cs) = (if succeeds E h c then Suc (successes E (h @ [c]) cs) else 0)"

text \<open>The disk after a list of calls that all returned.\<close>

fun write_all :: "env \<Rightarrow> call list \<Rightarrow> call list \<Rightarrow> (path \<rightharpoonup> bytes) \<Rightarrow> (path \<rightharpoonup> bytes)" where
  "write_all E h [] fs = fs"
| "write_all E h (c # cs) fs = write_all E (h @ [c]) cs (effect E h c fs)"

definition returned :: "call list \<Rightarrow> (call \<times> bool) list" where
  "returned cs = map (\<lambda>c. (c, True)) cs"

text \<open>The log of a list of calls of which the first \<open>n\<close> return and the next one raises.\<close>

definition outcome_log :: "call list \<Rightarrow> nat \<Rightarrow> (call \<times> bool) list" where
  "outcome_log cs n = returned (take n cs) @ (if n < length cs then [(cs ! n, False)] else [])"

text \<open>
  The log of a whole run in which \<open>n\<close> calls of \<open>script_steps\<close> return: the browser is
  closed (outcome \<open>b\<close>) once the page exists, the manager is left (outcome \<open>b'\<close>) once entered.
\<close>

definition guarded_trace :: "nat \<Rightarrow> bool \<Rightarrow> (call \<times> bool) list" where
  "guarded_trace n b =
     outcome_log script_steps n @ (if 4 \<le> n then [(BrowserClose, b)] else [])"

definition trace :: "nat \<Rightarrow> bool \<Rightarrow> bool \<Rightarrow> (call \<times> bool) list" where
  "trace n b b' =
     guarded_trace n b @ (if 1 \<le> n then [(SyncPlaywrightExit, b')] else [])"

section \<open>Observations on a finished run\<close>

definition final :: "env \<Rightarrow> (path \<rightharpoonup> bytes) \<Rightarrow> world" where
  "final E fs = snd (script E (initial fs))"

definition exit_status :: "env \<Rightarrow> (path \<rightharpoonup> bytes) \<Rightarrow> int" where
  "exit_status E fs = fst (script E (initial fs))"

definition attempted :: "call \<Rightarrow> world \<Rightarrow> bool" where
  "attempted c w \<longleftrightarrow> c \<in> set (history w)"

definition succeeded :: "call \<Rightarrow> world \<Rightarrow> bool" where
  "succeeded c w \<longleftrightarrow> (c, True) \<in> set (log w)"

definition failed :: "call \<Rightarrow> world \<Rightarrow> bool" where
  "failed c w \<longleftrightarrow> (c, False) \<in> set (log w)"

text \<open>The paths written during the run, in the order of writing.\<close>

definition written_log :: "(call \<times> bool) list \<Rightarrow> path list" where
  "written_log lg = concat (map (\<lambda>(c, ok). if ok then (case capture_path c of None \<Rightarrow> [] | Some p \<Rightarrow> [p]) else []) lg)"

definition written :: "world \<Rightarrow> path list" where
  "written w = written_log (log w)"

definition capture_paths :: "path list" where
  "capture_paths = [main_page_png, header_png, image_grid_png, upload_form_png, image_modal_png]"

text \<open>The navigation, wait and capture calls.\<close>

fun navigation_wait_or_capture :: "call \<Rightarrow> bool" where
  "navigation_wait_or_capture (Goto u) = True"
| "navigation_wait_or_capture (WaitForSelector s) = True"
| "navigation_wait_or_capture (PageScreenshot p) = True"
| "navigation_wait_or_capture (LocatorScreenshot s p) = True"
| "navigation_wait_or_capture _ = False"

text \<open>The calls that drive the page without capturing it.\<close>

fun is_interaction :: "call \<Rightarrow> bool" where
  "is_interaction (Goto u) = True"
| "is_interaction (WaitForSelector s) = True"
| "is_interaction (Click s) = True"
| "is_interaction (Locator s) = True"
| "is_interaction (LocatorClick s) = True"
| "is_interaction _ = False"

definition interactions :: "world \<Rightarrow> call list" where
  "interactions w = filter is_interaction (history w)"

section \<open>Concrete environments\<close>

text \<open>
  Environments on which the theorems below are exercised: one in which every call returns,
  and one in which a single chosen call raises. Both render the same four bytes of image
  data, the name of a PNG header chunk.
\<close>

definition png :: bytes where
  "png = [0x49, 0x48, 0x44, 0x52]"

definition env_all_ok :: env where
  "env_all_ok = \<lparr>succeeds = (\<lambda>h c. True), rendered = (\<lambda>h c. png)\<rparr>"

definition env_failing :: "call \<Rightarrow> env" where
  "env_failing bad = \<lparr>succeeds = (\<lambda>h c. c \<noteq> bad), rendered = (\<lambda>h c. png)\<rparr>"

section \<open>The script performs its calls in order\<close>

lemma next_do_perform:
  "next_do (perform E c) k w =
     (case perform E c w of (Inl e, w') \<Rightarrow> (Inl e, w') | (Inr _, w') \<Rightarrow> k w')"
  by (simp add: next_do_def and_then_def)

lemma and_then_locator:
  "and_then (page_locator E s) k w =
     (case perform E (Locator s) w of (Inl e, w') \<Rightarrow> (Inl e, w') | (Inr _, w') \<Rightarrow> k s w')"
  by (simp add: page_locator_def next_do_def and_then_def return_value_def split: prod.splits sum.splits)

lemma perform_all_single: "perform_all E [c] w = perform E c w"
  by (simp split: prod.splits sum.splits)

lemma perform_all_Cons2:
  "perform_all E (c # c' # cs) w =
     (case perform E c w of (Inl e, w') \<Rightarrow> (Inl e, w') | (Inr _, w') \<Rightarrow> perform_all E (c' # cs) w')"
  by simp

lemma run_body_steps: "run_body E w = perform_all E page_steps w"
  unfolding run_body_def page_steps_def page_goto_def page_wait_for_selector_def page_click_def
    page_screenshot_def locator_screenshot_def locator_click_def
  by (simp only: next_do_perform and_then_locator perform_all_single perform_all_Cons2)

lemma successes_le: "successes E h cs \<le> length cs"
  by (induction cs arbitrary: h) auto

lemma outcome_log_Cons_Suc: "outcome_log (c # cs) (Suc n) = (c, True) # outcome_log cs n"
  by (simp add: outcome_log_def returned_def)

lemma outcome_log_Cons_0: "outcome_log (c # cs) 0 = [(c, False)]"
  by (simp add: outcome_log_def returned_def)

lemma perform_all_char:
  "perform_all E cs w =
     (let n = successes E (history w) cs in
        (if n < length cs then Inl (Raised (cs ! n)) else Inr (),
         \<lparr>files = write_all E (history w) (take n cs) (files w),
          log = log w @ outcome_log cs n\<rparr>))"
proof (induction cs arbitrary: w)
  case Nil
  then show ?case by (simp add: outcome_log_def returned_def)
next
  case (Cons c cs)
  show ?case
  proof (cases "succeeds E (history w) c")
    case True
    then have "perform E c w = (Inr (), \<lparr>files = effect E (history w) c (files w), log = log w @ [(c, True)]\<rparr>)"
      by (simp add: perform_def)
    then show ?thesis using True
      by (simp add: Cons.IH history_def Let_def outcome_log_Cons_Suc)
  next
    case False
    then have "perform E c w = (Inl (Raised c), \<lparr>files = files w, log = log w @ [(c, False)]\<rparr>)"
      by (simp add: perform_def)
    then show ?thesis using False
      by (simp add: outcome_log_Cons_0)
  qed
qed

lemma successes_append:
  "successes E h (xs @ ys) =
     (if successes E h xs < length xs then successes E h xs
      else length xs + successes E (h @ xs) ys)"
proof (induction xs arbitrary: h)
  case Nil
  show ?case by simp
next
  case (Cons x xs)
  show ?case using successes_le [of E "h @ [x]" xs] by (simp add: Cons.IH)
qed

lemma write_all_append:
  "write_all E h (xs @ ys) fs = write_all E (h @ xs) ys (write_all E h xs fs)"
  by (induction xs arbitrary: h fs) simp_all

lemma outcome_log_append_left:
  "n < length xs \<Longrightarrow> outcome_log (xs @ ys) n = outcome_log xs n"
  by (simp add: outcome_log_def nth_append)

lemma outcome_log_append_right:
  "outcome_log (xs @ ys) (length xs + m) = returned xs @ outcome_log ys m"
  by (simp add: outcome_log_def returned_def nth_append)

lemma outcome_log_full: "outcome_log xs (length xs) = returned xs"
  by (simp add: outcome_log_def)

lemma history_returned: "map fst (returned xs) = xs"
  by (simp add: returned_def comp_def)

lemma map_fst_outcome_log:
  "map fst (outcome_log cs n) = take (Suc n) cs"
  by (simp add: outcome_log_def returned_def comp_def take_Suc_conv_app_nth)

lemma guarded_char:
  assumes fin: "capture_path fin = None"
  shows "next_do (perform_all E xs) (try_finally (perform_all E ys) (perform E fin)) w =
     (let n = successes E (history w) (xs @ ys);
          lg = outcome_log (xs @ ys) n;
          b = succeeds E (history w @ map fst lg) fin;
          fs = write_all E (history w) (take n (xs @ ys)) (files w)
      in if n < length xs
         then (Inl (Raised ((xs @ ys) ! n)), \<lparr>files = fs, log = log w @ lg\<rparr>)
         else (if \<not> b then Inl (Raised fin)
               else if n < length (xs @ ys) then Inl (Raised ((xs @ ys) ! n)) else Inr (),
               \<lparr>files = fs, log = log w @ lg @ [(fin, b)]\<rparr>))"
proof (cases "successes E (history w) xs < length xs")
  case True
  then show ?thesis
    by (simp add: next_do_def and_then_def perform_all_char successes_append Let_def
        outcome_log_append_left nth_append)
next
  case False
  then have k: "successes E (history w) xs = length xs"
    using successes_le [of E "history w" xs] by simp
  define m where "m = successes E (history w @ xs) ys"
  have m: "m \<le> length ys" by (simp add: m_def successes_le)
  show ?thesis using k m fin
    by (simp add: next_do_def and_then_def try_finally_def perform_all_char successes_append
        Let_def outcome_log_append_right outcome_log_full history_def history_returned perform_def effect_def
        write_all_append m_def [symmetric] nth_append)
qed

lemma run_steps:
  "run E = next_do (perform_all E setup_steps)
             (try_finally (perform_all E page_steps) (perform E BrowserClose))"
proof -
  have body: "run_body E = perform_all E page_steps"
    by (rule ext) (rule run_body_steps)
  show ?thesis
    by (rule ext)
       (simp add: run_def body setup_steps_def chromium_launch_def browser_new_context_def
          context_new_page_def browser_close_def next_do_def and_then_def
          split: prod.splits sum.splits)
qed

lemma try_finally_perform:
  "capture_path fin = None \<Longrightarrow>
   try_finally body (perform E fin) w =
     (case body w of (r, w') \<Rightarrow>
        let b = succeeds E (history w') fin
        in (if b then r else Inl (Raised fin),
            \<lparr>files = files w', log = log w' @ [(fin, b)]\<rparr>))"
  by (simp add: try_finally_def perform_def effect_def Let_def split: prod.splits)

lemma length_setup_steps: "length setup_steps = 3"
  by (simp add: setup_steps_def)

lemma length_page_steps: "length page_steps = 18"
  by (simp add: page_steps_def)

lemma length_script_steps: "length script_steps = 22"
  by (simp add: script_steps_def length_setup_steps length_page_steps)

lemma script_char:
  "script E (initial fs) =
     (let n = successes E [] script_steps;
          b = succeeds E (take (Suc n) script_steps) BrowserClose;
          b' = succeeds E (map fst (guarded_trace n b)) SyncPlaywrightExit
      in (if n = 22 \<and> b \<and> b' then 0 else 1,
          \<lparr>files = write_all E [] (take n script_steps) fs, log = trace n b b'\<rparr>))"
proof (cases "succeeds E [] SyncPlaywrightEnter")
  case False
  then show ?thesis
    by (simp add: script_def with_sync_playwright_def next_do_def and_then_def perform_def
        initial_def history_def script_steps_def trace_def guarded_trace_def outcome_log_Cons_0)
next
  case True
  define w0 where "w0 = \<lparr>files = fs, log = [(SyncPlaywrightEnter, True)]\<rparr>"
  define n where "n = successes E [SyncPlaywrightEnter] (setup_steps @ page_steps)"
  have h0: "history w0 = [SyncPlaywrightEnter]"
    by (simp add: w0_def history_def)
  have f0: "files w0 = fs" and l0: "log w0 = [(SyncPlaywrightEnter, True)]"
    by (simp_all add: w0_def)
  have enter: "perform E SyncPlaywrightEnter (initial fs) = (Inr (), w0)"
    using True by (simp add: perform_def initial_def history_def w0_def effect_def)
  have n: "successes E [] script_steps = Suc n"
    using True by (simp add: script_steps_def n_def)
  have nle: "n \<le> 21"
    using successes_le [of E "[SyncPlaywrightEnter]" "setup_steps @ page_steps"]
    by (simp add: n_def length_setup_steps length_page_steps)
  have r: "run E w0 =
     (let lg = outcome_log (setup_steps @ page_steps) n;
          b = succeeds E (SyncPlaywrightEnter # map fst lg) BrowserClose;
          fs' = write_all E [SyncPlaywrightEnter] (take n (setup_steps @ page_steps)) fs
      in if n < 3
         then (Inl (Raised ((setup_steps @ page_steps) ! n)),
               \<lparr>files = fs', log = (SyncPlaywrightEnter, True) # lg\<rparr>)
         else (if \<not> b then Inl (Raised BrowserClose)
               else if n < 21 then Inl (Raised ((setup_steps @ page_steps) ! n)) else Inr (),
               \<lparr>files = fs', log = (SyncPlaywrightEnter, True) # lg @ [(BrowserClose, b)]\<rparr>))"
    unfolding run_steps
    by (subst guarded_char)
       (simp_all add: h0 f0 l0 n_def [symmetric] Let_def length_setup_steps length_page_steps)
  let ?rs = "setup_steps @ page_steps"
  have lhs: "script E (initial fs) =
     (case run E w0 of (r1, w1) \<Rightarrow>
        let b' = succeeds E (history w1) SyncPlaywrightExit
        in (if b' \<and> r1 = Inr () then 0 else 1,
            \<lparr>files = files w1, log = log w1 @ [(SyncPlaywrightExit, b')]\<rparr>))"
    by (simp add: script_def with_sync_playwright_def next_do_def and_then_def enter
        try_finally_perform Let_def split: prod.splits sum.splits)
  have tr: "trace (Suc n) b b' =
      (SyncPlaywrightEnter, True) # outcome_log ?rs n
      @ (if 3 \<le> n then [(BrowserClose, b)] else []) @ [(SyncPlaywrightExit, b')]" for b b'
    by (simp add: trace_def guarded_trace_def script_steps_def outcome_log_Cons_Suc)
  have gtr: "guarded_trace (Suc n) b =
      (SyncPlaywrightEnter, True) # outcome_log ?rs n
      @ (if 3 \<le> n then [(BrowserClose, b)] else [])" for b
    by (simp add: guarded_trace_def script_steps_def outcome_log_Cons_Suc)
  have tk: "take (Suc m) script_steps = SyncPlaywrightEnter # take m ?rs" for m
    by (simp add: script_steps_def)
  show ?thesis
    unfolding n Let_def lhs r tr gtr tk
    using nle
    by (auto simp add: history_def map_fst_outcome_log effect_def)
qed

section \<open>Facts about the log and the disk of a whole run\<close>

lemmas exec_defs = final_def exit_status_def script_def with_sync_playwright_def run_def run_body_def
  chromium_launch_def browser_new_context_def context_new_page_def
  page_goto_def page_wait_for_selector_def page_click_def page_screenshot_def
  page_locator_def locator_screenshot_def locator_click_def browser_close_def
  next_do_def and_then_def return_value_def try_finally_def perform_def initial_def history_def
  effect_def capture_file_def

lemmas steps_defs = script_steps_def setup_steps_def page_steps_def

lemma final_trace:
  obtains n b b' where "n \<le> 22"
    and "log (final E fs) = trace n b b'"
    and "files (final E fs) = write_all E [] (take n script_steps) fs"
    and "exit_status E fs = (if n = 22 \<and> b \<and> b' then 0 else 1)"
proof -
  have "successes E [] script_steps \<le> 22"
    using successes_le [of E "[]" script_steps] by (simp add: length_script_steps)
  then show ?thesis
    using that [of "successes E [] script_steps"]
    by (simp add: final_def exit_status_def script_char Let_def)
qed

lemma history_trace:
  "n \<le> 22 \<Longrightarrow> map fst (trace n b b') =
     take (Suc n) script_steps
     @ (if 4 \<le> n then [BrowserClose] else [])
     @ (if 1 \<le> n then [SyncPlaywrightExit] else [])"
  by (simp add: trace_def guarded_trace_def map_fst_outcome_log)

lemma distinct_script_steps: "distinct script_steps"
  by (simp add: steps_defs main_page_png_def header_png_def image_grid_png_def
      upload_form_png_def image_modal_png_def)

lemma cleanup_not_step:
  "BrowserClose \<notin> set script_steps" "SyncPlaywrightExit \<notin> set script_steps"
  by (simp_all add: steps_defs)

lemma cleanup_not_page:
  "BrowserClose \<notin> set page_steps" "SyncPlaywrightExit \<notin> set page_steps"
  by (simp_all add: page_steps_def)

lemma script_steps_split: "script_steps = take 4 script_steps @ page_steps"
  by (simp add: steps_defs)

lemma page_step_index:
  assumes "c \<in> set page_steps" "c \<in> set (take (Suc n) script_steps)"
  shows "4 \<le> n"
proof (rule ccontr)
  assume "\<not> 4 \<le> n"
  then have "Suc n \<le> 4" by simp
  then have "set (take (Suc n) script_steps) \<subseteq> set (take 4 script_steps)"
    by (metis min.absorb1 set_take_subset take_take)
  moreover have "set (take 4 script_steps) \<inter> set page_steps = {}"
    using distinct_script_steps by (subst (asm) script_steps_split) simp
  ultimately show False using assms by blast
qed

lemma dropWhile_cleanup:
  "x \<notin> set xs \<Longrightarrow> dropWhile (\<lambda>c. c \<noteq> x) (xs @ x # ys) = x # ys"
  by (induction xs) auto

lemmas path_defs = main_page_png_def header_png_def image_grid_png_def
  upload_form_png_def image_modal_png_def

lemma failed_outcome_log:
  "(c, False) \<in> set (outcome_log cs n) \<longleftrightarrow> n < length cs \<and> cs ! n = c"
  by (auto simp: outcome_log_def returned_def)

lemma succeeded_outcome_log:
  "(c, True) \<in> set (outcome_log cs n) \<longleftrightarrow> c \<in> set (take n cs)"
  by (auto simp: outcome_log_def returned_def)

lemma failed_trace:
  assumes "c \<in> set script_steps"
  shows "(c, False) \<in> set (trace n b b') \<longleftrightarrow> n < 22 \<and> script_steps ! n = c"
  using assms cleanup_not_step
  by (auto simp: trace_def guarded_trace_def failed_outcome_log length_script_steps)

lemma succeeded_trace:
  assumes "c \<in> set script_steps"
  shows "(c, True) \<in> set (trace n b b') \<longleftrightarrow> c \<in> set (take n script_steps)"
  using assms cleanup_not_step
  by (auto simp: trace_def guarded_trace_def succeeded_outcome_log)

lemma written_log_append: "written_log (xs @ ys) = written_log xs @ written_log ys"
  by (simp add: written_log_def)

lemma written_log_outcome:
  "written_log (outcome_log cs n) = written_log (returned (take n cs))"
  by (simp add: outcome_log_def written_log_append) (simp add: written_log_def)

lemma written_trace:
  "written_log (trace n b b') = written_log (returned (take n script_steps))"
  by (simp add: trace_def guarded_trace_def written_log_append written_log_outcome)
     (simp add: written_log_def)

text \<open>A run in which the call at position \<open>k\<close> of the script raises stops there.\<close>

lemma failed_step:
  assumes k: "k < 22" and f: "failed (script_steps ! k) (final E fs)"
  obtains b b' where "log (final E fs) = trace k b b'"
    and "files (final E fs) = write_all E [] (take k script_steps) fs"
    and "exit_status E fs = 1"
proof -
  obtain n b b' where n: "n \<le> 22" and lg: "log (final E fs) = trace n b b'"
    and fl: "files (final E fs) = write_all E [] (take n script_steps) fs"
    and ex: "exit_status E fs = (if n = 22 \<and> b \<and> b' then 0 else 1)"
    by (rule final_trace)
  have "script_steps ! k \<in> set script_steps"
    using k by (simp add: length_script_steps)
  then have "n < 22 \<and> script_steps ! n = script_steps ! k"
    using f by (simp add: failed_def lg failed_trace)
  then have "n = k"
    using k by (metis nth_eq_iff_index_eq length_script_steps distinct_script_steps)
  then show ?thesis using that lg fl ex k by simp
qed

lemma script_steps_nth:
  "script_steps ! 4 = Goto ''http://localhost:5173''"
  "script_steps ! 5 = WaitForSelector ''text=Visuals''"
  "script_steps ! 11 = Click ''text=Upload''"
  by (simp_all add: steps_defs)

lemma history_failed_step:
  "4 \<le> k \<Longrightarrow> k < 22 \<Longrightarrow> map fst (trace k b b') = take (Suc k) script_steps @ [BrowserClose, SyncPlaywrightExit]"
  by (simp add: history_trace)

lemma not_attempted_later:
  assumes h: "history w = take m script_steps @ [BrowserClose, SyncPlaywrightExit]"
    and c: "c \<in> set (drop m script_steps)"
  shows "\<not> attempted c w"
proof -
  have "distinct (take m script_steps @ drop m script_steps)"
    using distinct_script_steps by simp
  then have "c \<notin> set (take m script_steps)"
    using c by (simp only: distinct_append) blast
  moreover have "c \<in> set script_steps"
    using c by (meson in_set_dropD)
  ultimately show ?thesis
    using cleanup_not_step by (auto simp: attempted_def h)
qed

lemma released_after:
  assumes h: "history w = take m script_steps @ [BrowserClose, SyncPlaywrightExit]"
  shows "dropWhile (\<lambda>c. c \<noteq> BrowserClose) (history w) = [BrowserClose, SyncPlaywrightExit]"
proof -
  have "BrowserClose \<notin> set (take m script_steps)"
    using cleanup_not_step(1) by (meson in_set_takeD)
  then show ?thesis by (simp add: h dropWhile_cleanup)
qed

lemma nth_in_take_iff:
  assumes "distinct xs" "k < length xs"
  shows "xs ! k \<in> set (take n xs) \<longleftrightarrow> k < n"
proof
  assume "xs ! k \<in> set (take n xs)"
  then obtain i where i: "i < length (take n xs)" "take n xs ! i = xs ! k"
    by (auto simp: in_set_conv_nth)
  then have "xs ! i = xs ! k" "i < length xs" "i < n" by auto
  then have "i = k" using assms by (simp add: nth_eq_iff_index_eq)
  then show "k < n" using \<open>i < n\<close> by simp
next
  assume "k < n"
  then show "xs ! k \<in> set (take n xs)"
    using assms(2) by (auto simp: in_set_conv_nth intro!: exI [of _ k])
qed

lemma step_in_take_iff:
  "k < 22 \<Longrightarrow> script_steps ! k \<in> set (take n script_steps) \<longleftrightarrow> k < n"
  by (simp add: nth_in_take_iff distinct_script_steps length_script_steps)

lemma attempted_trace:
  assumes "n \<le> 22" "log w = trace n b b'"
  shows "attempted BrowserClose w \<longleftrightarrow> 4 \<le> n"
    and "c \<in> set script_steps \<Longrightarrow> attempted c w \<longleftrightarrow> c \<in> set (take (Suc n) script_steps)"
  using assms cleanup_not_step
  by (auto simp: attempted_def history_def history_trace dest: in_set_takeD)

lemma script_steps_setup:
  "script_steps ! Suc 0 = Launch True" "script_steps ! 2 = NewContext" "script_steps ! 3 = NewPage"
  by (simp_all add: steps_defs)

lemma page_steps_in_script: "set page_steps \<subseteq> set script_steps"
  by (auto simp: script_steps_def)

lemma effect_overlay: "effect E h c fs = fs ++ effect E h c Map.empty"
  by (auto simp: effect_def map_add_def split: option.splits)

lemma write_all_overlay: "write_all E h cs fs = fs ++ write_all E h cs Map.empty"
proof (induction cs arbitrary: h fs)
  case Nil
  show ?case by simp
next
  case (Cons c cs)
  have "write_all E h (c # cs) fs = effect E h c fs ++ write_all E (h @ [c]) cs Map.empty"
    by (simp add: Cons.IH [of _ "effect E h c fs"])
  also have "\<dots> = fs ++ (effect E h c Map.empty ++ write_all E (h @ [c]) cs Map.empty)"
    by (subst effect_overlay) simp
  also have "\<dots> = fs ++ write_all E h (c # cs) Map.empty"
    by (simp add: Cons.IH [of _ "effect E h c Map.empty"])
  finally show ?case .
qed

lemma written_log_returned_Cons:
  "written_log (returned (c # cs)) =
     (case capture_path c of None \<Rightarrow> [] | Some p \<Rightarrow> [p]) @ written_log (returned cs)"
  by (simp add: written_log_def returned_def)

lemma dom_effect:
  "dom (effect E h c fs) = dom fs \<union> set (case capture_path c of None \<Rightarrow> [] | Some p \<Rightarrow> [p])"
  by (auto simp: effect_def split: option.splits)

lemma dom_write_all:
  "dom (write_all E h cs fs) = dom fs \<union> set (written_log (returned cs))"
  by (induction cs arbitrary: h fs) (auto simp: written_log_returned_Cons dom_effect written_log_def returned_def)

lemma write_all_untouched:
  "p \<notin> set (written_log (returned cs)) \<Longrightarrow> write_all E h cs fs p = fs p"
proof (induction cs arbitrary: h fs)
  case Nil
  show ?case by simp
next
  case (Cons c cs)
  then have "p \<notin> set (written_log (returned cs))" and "capture_path c \<noteq> Some p"
    by (auto simp: written_log_returned_Cons split: option.splits)
  then show ?case by (simp add: Cons.IH effect_def split: option.splits)
qed

lemma write_all_rendered:
  "p \<in> set (written_log (returned cs)) \<Longrightarrow>
     \<exists>h' c. capture_path c = Some p \<and> write_all E h cs fs p = Some (capture_file E h' c)"
proof (induction cs arbitrary: h fs)
  case Nil
  then show ?case by (simp add: written_log_def returned_def)
next
  case (Cons c cs)
  show ?case
  proof (cases "p \<in> set (written_log (returned cs))")
    case True
    then show ?thesis using Cons.IH by simp
  next
    case False
    then have "capture_path c = Some p"
      using Cons.prems by (auto simp: written_log_returned_Cons split: option.splits)
    then show ?thesis using False
      by (auto simp: write_all_untouched effect_def)
  qed
qed

lemma written_final:
  assumes "log (final E fs) = trace n b b'"
  shows "written (final E fs) = written_log (returned (take n script_steps))"
  by (simp only: written_def assms written_trace)

lemma written_take_12:
  "written_log (returned (take 11 script_steps)) = [main_page_png, header_png, image_grid_png]"
  by (simp add: steps_defs returned_def written_log_def)

lemma written_all_steps: "written_log (returned script_steps) = capture_paths"
  by (simp add: steps_defs returned_def written_log_def capture_paths_def)

lemma distinct_capture_paths: "distinct capture_paths"
  by (simp add: capture_paths_def path_defs)

lemma successful_trace:
  assumes "exit_status E fs = 0"
  shows "log (final E fs) = trace 22 True True"
proof -
  obtain n b b' where lg: "log (final E fs) = trace n b b'"
    and ex: "exit_status E fs = (if n = 22 \<and> b \<and> b' then 0 else 1)"
    by (rule final_trace)
  from assms ex have "n = 22 \<and> b \<and> b'" by (simp split: if_splits)
  then show ?thesis using lg by simp
qed

lemma takeWhile_distinct_nth:
  assumes "distinct xs" "k < length xs"
  shows "takeWhile (\<lambda>d. d \<noteq> xs ! k) xs = take k xs"
proof -
  have xs: "xs = take k xs @ xs ! k # drop (Suc k) xs"
    using assms(2) by (simp add: id_take_nth_drop)
  have "xs ! k \<notin> set (take k xs)"
    using assms by (simp add: nth_in_take_iff)
  then have "takeWhile (\<lambda>d. d \<noteq> xs ! k) (take k xs @ xs ! k # drop (Suc k) xs) = take k xs"
    by (subst takeWhile_append2) auto
  then show ?thesis using xs by simp
qed

lemma dropWhile_distinct_nth:
  assumes "distinct xs" "k < length xs"
  shows "dropWhile (\<lambda>d. d \<noteq> xs ! k) (take (Suc k) xs @ ys) = xs ! k # ys"
proof -
  have "xs ! k \<notin> set (take k xs)"
    using assms by (simp add: nth_in_take_iff)
  then show ?thesis
    using assms(2) by (simp add: take_Suc_conv_app_nth dropWhile_append dropWhile_cleanup)
qed

lemma page_step_nth:
  assumes "c \<in> set page_steps"
  obtains k where "4 \<le> k" "k < 22" "script_steps ! k = c"
proof -
  from assms obtain i where i: "i < length page_steps" "page_steps ! i = c"
    by (auto simp: in_set_conv_nth)
  have "script_steps ! (4 + i) = page_steps ! i"
    by (subst script_steps_split) (simp add: nth_append length_script_steps length_page_steps)
  then show ?thesis
    using i that [of "4 + i"] by (simp add: length_page_steps)
qed

lemma distinct_history:
  assumes "n \<le> 22"
  shows "distinct (map fst (trace n b b'))"
proof -
  have d: "distinct (take (Suc n) script_steps)"
    using distinct_script_steps by simp
  have "BrowserClose \<notin> set (take (Suc n) script_steps)"
       "SyncPlaywrightExit \<notin> set (take (Suc n) script_steps)"
    using cleanup_not_step by (meson in_set_takeD)+
  then show ?thesis
    using d by (simp add: history_trace [OF assms])
qed

lemma trace_nth_returned:
  assumes "i < n" "n \<le> 22"
  shows "trace n b b' ! i = (script_steps ! i, True)"
  using assms
  by (simp add: trace_def guarded_trace_def outcome_log_def returned_def nth_append
      length_script_steps)

lemma trace_nth_cleanup:
  assumes "n < i" "i < length (trace n b b')" "n \<le> 22"
  shows "fst (trace n b b' ! i) \<notin> set script_steps"
proof -
  have "fst (trace n b b' ! i) = map fst (trace n b b') ! i"
    using assms(2) by simp
  also have "\<dots> = (take (Suc n) script_steps @ (if 4 \<le> n then [BrowserClose] else [])
      @ (if 1 \<le> n then [SyncPlaywrightExit] else [])) ! i"
    by (simp only: history_trace [OF assms(3)])
  finally have eq: "fst (trace n b b' ! i) = (take (Suc n) script_steps @ (if 4 \<le> n then [BrowserClose] else [])
      @ (if 1 \<le> n then [SyncPlaywrightExit] else [])) ! i" .
  have len: "length (trace n b b') = length (take (Suc n) script_steps @ (if 4 \<le> n then [BrowserClose] else [])
      @ (if 1 \<le> n then [SyncPlaywrightExit] else []))"
    by (metis history_trace [OF assms(3)] length_map)
  show ?thesis
  proof (cases "n < 22")
    case True
    then have l: "length (take (Suc n) script_steps) = Suc n"
      by (simp add: length_script_steps)
    with assms(1) have "fst (trace n b b' ! i) = ((if 4 \<le> n then [BrowserClose] else [])
      @ (if 1 \<le> n then [SyncPlaywrightExit] else [])) ! (i - Suc n)"
      unfolding eq by (simp add: nth_append)
    moreover have "i - Suc n < length ((if 4 \<le> n then [BrowserClose] else [])
      @ (if 1 \<le> n then [SyncPlaywrightExit] else []))"
      using assms(1,2) len l by (simp split: if_splits)
    ultimately have "fst (trace n b b' ! i) \<in> {BrowserClose, SyncPlaywrightExit}"
      by (auto simp: nth_append nth_Cons' split: if_splits)
    then show ?thesis using cleanup_not_step by auto
  next
    case False
    then have n22: "n = 22" using assms(3) by simp
    have "fst (trace n b b' ! i) = [BrowserClose, SyncPlaywrightExit] ! (i - 22)"
      unfolding eq using assms(1) by (simp add: n22 nth_append length_script_steps)
    moreover have "i - 22 < 2"
      using assms(1,2) len by (simp add: n22 length_script_steps)
    ultimately have "fst (trace n b b' ! i) \<in> {BrowserClose, SyncPlaywrightExit}"
      by (auto simp: nth_Cons' split: if_splits)
    then show ?thesis using cleanup_not_step by auto
  qed
qed

lemma distinct_count_list: "distinct xs \<Longrightarrow> count_list xs x \<le> 1"
  by (induction xs) auto

lemma failing_step_release:
  assumes "c \<in> set page_steps" and "failed c (final E fs)"
  shows "dropWhile (\<lambda>d. d \<noteq> c) (history (final E fs)) = [c, BrowserClose, SyncPlaywrightExit]"
proof -
  obtain k where k4: "4 \<le> k" and k22: "k < 22" and c: "script_steps ! k = c"
    using assms(1) by (rule page_step_nth)
  have f: "failed (script_steps ! k) (final E fs)"
    using assms(2) by (simp only: c)
  obtain b b' where lg: "log (final E fs) = trace k b b'"
    using failed_step [OF k22 f] by blast
  have h: "history (final E fs) = take (Suc k) script_steps @ [BrowserClose, SyncPlaywrightExit]"
    by (simp add: history_def lg history_failed_step [OF k4 k22])
  show ?thesis
    unfolding h c [symmetric]
    using k22 by (simp only: dropWhile_distinct_nth distinct_script_steps length_script_steps)
qed

lemma capture_calls:
  "map capture_path (filter (\<lambda>c. capture_path c \<noteq> None) script_steps) = map Some capture_paths"
  by (simp add: steps_defs capture_paths_def)

lemma capture_path_inj:
  assumes "c \<in> set script_steps" "c' \<in> set script_steps"
    and "capture_path c = Some p" "capture_path c' = Some p"
  shows "c = c'"
proof -
  let ?caps = "filter (\<lambda>c. capture_path c \<noteq> None) script_steps"
  have "distinct (map capture_path ?caps)"
    using distinct_capture_paths by (simp only: capture_calls distinct_map) simp
  then have "inj_on capture_path (set ?caps)"
    by (simp only: distinct_map)
  moreover have "c \<in> set ?caps" "c' \<in> set ?caps"
    using assms by simp_all
  ultimately show ?thesis
    using assms(3,4) by (simp add: inj_on_def)
qed

lemma written_log_returned_set:
  "p \<in> set (written_log (returned cs)) \<longleftrightarrow> (\<exists>c \<in> set cs. capture_path c = Some p)"
  by (induction cs) (auto simp: written_log_returned_Cons written_log_def returned_def split: option.splits)

lemma successes_take:
  "k < length cs \<Longrightarrow> k < successes E h cs \<longleftrightarrow>
     (k \<le> successes E h cs \<and> succeeds E (h @ take k cs) (cs ! k))"
proof (induction cs arbitrary: h k)
  case Nil
  then show ?case by simp
next
  case (Cons c cs)
  show ?case
  proof (cases k)
    case 0
    then show ?thesis by simp
  next
    case (Suc m)
    then show ?thesis using Cons.prems Cons.IH [of m "h @ [c]"] by simp
  qed
qed

lemma final_trace_successes:
  obtains b b' where "log (final E fs) = trace (successes E [] script_steps) b b'"
  by (simp add: final_def script_char Let_def)

lemma take_subset_iff:
  assumes "k < 22"
  shows "set (take k script_steps) \<subseteq> set (take n script_steps) \<longleftrightarrow> k \<le> n"
proof
  assume sub: "set (take k script_steps) \<subseteq> set (take n script_steps)"
  show "k \<le> n"
  proof (rule ccontr)
    assume "\<not> k \<le> n"
    then have nk: "n < k" by simp
    then have "n < 22" using assms by simp
    then have "script_steps ! n \<in> set (take k script_steps)"
      using nk by (simp add: step_in_take_iff)
    then have "script_steps ! n \<in> set (take n script_steps)"
      using sub by blast
    then show False using \<open>n < 22\<close> by (simp add: step_in_take_iff)
  qed
next
  assume "k \<le> n"
  then show "set (take k script_steps) \<subseteq> set (take n script_steps)"
    by (rule set_take_subset_set_take)
qed

lemma successes_cong:
  "succeeds E2 = succeeds E1 \<Longrightarrow> successes E2 h cs = successes E1 h cs"
  by (induction cs arbitrary: h) simp_all

lemma files_final:
  "files (final E fs) = write_all E [] (take (successes E [] script_steps) script_steps) fs"
  by (simp add: final_def script_char Let_def)

lemma written_log_subset:
  "set (written_log (returned (take n script_steps))) \<subseteq> set capture_paths"
proof -
  have "set (written_log (returned (take n script_steps))) \<subseteq> set (written_log (returned script_steps))"
    using in_set_takeD by (fastforce simp: written_log_returned_set)
  then show ?thesis by (simp only: written_all_steps)
qed

lemma capture_file_nonempty: "capture_file E h c \<noteq> []"
  by (simp add: capture_file_def png_signature_def)

lemma capture_in_page:
  "d \<in> set script_steps \<Longrightarrow> capture_path d = Some p \<Longrightarrow> d \<in> set page_steps"
  by (auto simp: script_steps_def setup_steps_def)

text \<open>
  The file at a capture's path after the run: the capture's image if the capture returned,
  and what was there before the run otherwise.
\<close>

lemma file_of_capture:
  assumes "c \<in> set page_steps" and "capture_path c = Some p"
  shows "files (final E fs) p =
     (if succeeded c (final E fs)
      then Some (capture_file E (takeWhile (\<lambda>d. d \<noteq> c) script_steps) c)
      else fs p)"
proof -
  define n where "n = successes E [] script_steps"
  obtain b b' where lg: "log (final E fs) = trace n b b'"
    unfolding n_def by (rule final_trace_successes)
  have fl: "files (final E fs) = write_all E [] (take n script_steps) fs"
    unfolding n_def by (rule files_final)
  obtain k where k22: "k < 22" and c: "script_steps ! k = c"
    using assms(1) by (rule page_step_nth)
  have cs: "c \<in> set script_steps"
    using assms(1) page_steps_in_script by blast
  have tw: "takeWhile (\<lambda>d. d \<noteq> c) script_steps = take k script_steps"
    unfolding c [symmetric]
    using k22 by (simp only: takeWhile_distinct_nth distinct_script_steps length_script_steps)
  have sc: "succeeded c (final E fs) \<longleftrightarrow> k < n"
    using step_in_take_iff [OF k22, of n] by (simp add: succeeded_def lg succeeded_trace cs c)
  show ?thesis
  proof (cases "k < n")
    case True
    define ys where "ys = drop (Suc k) (take n script_steps)"
    have kn: "k < length (take n script_steps)"
      using True k22 by (simp add: length_script_steps)
    have "take n script_steps = take k (take n script_steps) @ take n script_steps ! k # ys"
      unfolding ys_def using kn by (rule id_take_nth_drop)
    then have split: "take n script_steps = take k script_steps @ c # ys"
      using True by (simp add: c min_def)
    have "distinct (take k script_steps @ c # ys)"
      using distinct_script_steps by (simp only: split [symmetric] distinct_take)
    then have cys: "c \<notin> set ys" by simp
    have "p \<notin> set (written_log (returned ys))"
    proof
      assume "p \<in> set (written_log (returned ys))"
      then obtain c' where c': "c' \<in> set ys" "capture_path c' = Some p"
        by (auto simp: written_log_returned_set)
      then have "c' \<in> set (take n script_steps)" by (simp add: split)
      then have "c' \<in> set script_steps" by (meson in_set_takeD)
      then have "c' = c" using cs c'(2) assms(2) by (rule capture_path_inj)
      then show False using c'(1) cys by simp
    qed
    then have "files (final E fs) p = Some (capture_file E (take k script_steps) c)"
      by (simp add: fl split write_all_append write_all_untouched effect_def assms(2))
    then show ?thesis using True by (simp add: sc tw)
  next
    case False
    have "p \<notin> set (written_log (returned (take n script_steps)))"
    proof
      assume "p \<in> set (written_log (returned (take n script_steps)))"
      then obtain c' where c': "c' \<in> set (take n script_steps)" "capture_path c' = Some p"
        by (auto simp: written_log_returned_set)
      then have "c' \<in> set script_steps" by (meson in_set_takeD)
      then have "c' = c" using cs c'(2) assms(2) by (rule capture_path_inj)
      then have "k < n" using c'(1) step_in_take_iff [OF k22, of n] by (simp add: c)
      then show False using False by simp
    qed
    then show ?thesis using False by (simp add: fl write_all_untouched sc)
  qed
qed

lemma last_capture_succeeded:
  assumes "succeeded (LocatorScreenshot ''div[role='dialog']'' image_modal_png) (final E fs)"
  obtains b b' where "log (final E fs) = trace 22 b b'"
    and "files (final E fs) = write_all E [] script_steps fs"
proof -
  obtain n b b' where n: "n \<le> 22" and lg: "log (final E fs) = trace n b b'"
    and fl: "files (final E fs) = write_all E [] (take n script_steps) fs"
    by (rule final_trace)
  have l: "script_steps ! 21 = LocatorScreenshot ''div[role='dialog']'' image_modal_png"
    by (simp add: steps_defs)
  have "script_steps ! 21 \<in> set script_steps"
    by (simp add: length_script_steps)
  then have "script_steps ! 21 \<in> set (take n script_steps)"
    using assms by (simp add: succeeded_def lg succeeded_trace l)
  then have "21 < n" by (simp add: step_in_take_iff)
  then have "n = 22" using n by simp
  then show ?thesis using that lg fl by (simp add: length_script_steps)
qed

section \<open>Behaviour of a whole run\<close>

subsection \<open>Browser release\<close>

text \<open>
  Claim C2. In every run in which a step of the guarded body is attempted, whether that
  step returns or raises, \<^verbatim>\<open>browser.close()\<close> is executed: it is called exactly once, after
  the last body step, and only the exit of the \<^verbatim>\<open>with\<close> block follows it.
\<close>

theorem browser_closed_on_every_exit:
  assumes "c \<in> set page_steps" and "attempted c (final E fs)"
  shows "dropWhile (\<lambda>c. c \<noteq> BrowserClose) (history (final E fs)) = [BrowserClose, SyncPlaywrightExit]
       \<and> count_list (history (final E fs)) BrowserClose = 1"
proof -
  obtain n b b' where n: "n \<le> 22" and lg: "log (final E fs) = trace n b b'"
    by (rule final_trace)
  have h: "history (final E fs) =
      take (Suc n) script_steps @ (if 4 \<le> n then [BrowserClose] else [])
      @ (if 1 \<le> n then [SyncPlaywrightExit] else [])"
    by (simp add: history_def lg history_trace [OF n])
  have notin: "BrowserClose \<notin> set (take (Suc n) script_steps)"
    using cleanup_not_step(1) by (meson in_set_takeD)
  have "c \<in> set (take (Suc n) script_steps)"
    using assms h cleanup_not_page by (auto simp: attempted_def split: if_splits)
  then have "4 \<le> n" using assms(1) page_step_index by blast
  then have h': "history (final E fs) = take (Suc n) script_steps @ [BrowserClose, SyncPlaywrightExit]"
    using h by simp
  show ?thesis using notin by (simp add: h' dropWhile_cleanup count_list_0_iff)
qed

theorem browser_closed_on_every_exit_witness:
  "Click ''text=Upload'' \<in> set page_steps
   \<and> attempted (Click ''text=Upload'') (final (env_failing (Click ''text=Upload'')) Map.empty)
   \<and> failed (Click ''text=Upload'') (final (env_failing (Click ''text=Upload'')) Map.empty)
   \<and> dropWhile (\<lambda>c. c \<noteq> BrowserClose)
         (history (final (env_failing (Click ''text=Upload'')) Map.empty))
       = [BrowserClose, SyncPlaywrightExit]
   \<and> count_list (history (final (env_failing (Click ''text=Upload'')) Map.empty)) BrowserClose = 1"
  using browser_closed_on_every_exit
    [of "Click ''text=Upload''" "env_failing (Click ''text=Upload'')" Map.empty]
  by (simp add: exec_defs env_failing_def attempted_def failed_def page_steps_def)

subsection \<open>Failure before the first capture\<close>

text \<open>
  Claim C5. If the initial navigation raises, or the wait for the text \<^verbatim>\<open>Visuals\<close> raises,
  then the run aborts at that point: the failing call is followed only by \<^verbatim>\<open>browser.close()\<close>
  and the exit of the \<^verbatim>\<open>with\<close> block, so the calls of the run are exactly the acquisitions,
  the navigation (and, when it is the wait that raises, the wait) and the two cleanup calls.
  The run writes no image file and leaves the disk as it found it, the process ends with
  status 1, and the browser is closed.
\<close>

theorem early_failure_writes_nothing:
  assumes "failed (Goto ''http://localhost:5173'') (final E fs)
         \<or> failed (WaitForSelector ''text=Visuals'') (final E fs)"
  shows "written (final E fs) = []
       \<and> files (final E fs) = fs
       \<and> exit_status E fs = 1
       \<and> dropWhile (\<lambda>c. c \<noteq> BrowserClose) (history (final E fs)) = [BrowserClose, SyncPlaywrightExit]
       \<and> (\<forall>c \<in> set (drop 6 script_steps). \<not> attempted c (final E fs))
       \<and> (failed (Goto ''http://localhost:5173'') (final E fs) \<longrightarrow>
            history (final E fs) =
              [SyncPlaywrightEnter, Launch True, NewContext, NewPage,
               Goto ''http://localhost:5173'',
               BrowserClose, SyncPlaywrightExit])
       \<and> (failed (WaitForSelector ''text=Visuals'') (final E fs) \<longrightarrow>
            history (final E fs) =
              [SyncPlaywrightEnter, Launch True, NewContext, NewPage,
               Goto ''http://localhost:5173'', WaitForSelector ''text=Visuals'',
               BrowserClose, SyncPlaywrightExit])"
proof -
  have at_goto: "history (final E fs) =
      [SyncPlaywrightEnter, Launch True, NewContext, NewPage,
       Goto ''http://localhost:5173'', BrowserClose, SyncPlaywrightExit]"
    if "failed (Goto ''http://localhost:5173'') (final E fs)"
  proof -
    have f4: "failed (script_steps ! 4) (final E fs)"
      using that by (simp only: script_steps_nth)
    have "(4::nat) < 22" by simp
    from failed_step [OF this f4] obtain b b' where "log (final E fs) = trace 4 b b'"
      by blast
    then have "history (final E fs) = take (Suc 4) script_steps @ [BrowserClose, SyncPlaywrightExit]"
      by (simp add: history_def history_failed_step)
    then show ?thesis by (simp add: steps_defs)
  qed
  have at_wait: "history (final E fs) =
      [SyncPlaywrightEnter, Launch True, NewContext, NewPage,
       Goto ''http://localhost:5173'', WaitForSelector ''text=Visuals'',
       BrowserClose, SyncPlaywrightExit]"
    if "failed (WaitForSelector ''text=Visuals'') (final E fs)"
  proof -
    have f5: "failed (script_steps ! 5) (final E fs)"
      using that by (simp only: script_steps_nth)
    have "(5::nat) < 22" by simp
    from failed_step [OF this f5] obtain b b' where "log (final E fs) = trace 5 b b'"
      by blast
    then have "history (final E fs) = take (Suc 5) script_steps @ [BrowserClose, SyncPlaywrightExit]"
      by (simp add: history_def history_failed_step)
    then show ?thesis by (simp add: steps_defs)
  qed
  from assms obtain k where k: "k = 4 \<or> k = 5" and f: "failed (script_steps ! k) (final E fs)"
    using script_steps_nth(1,2) by metis
  from k have k22: "k < 22" and k4: "4 \<le> k" by auto
  obtain b b' where lg: "log (final E fs) = trace k b b'"
    and fl: "files (final E fs) = write_all E [] (take k script_steps) fs"
    and ex: "exit_status E fs = 1"
    using failed_step [OF k22 f] by blast
  have tk: "take k script_steps = take k (take 5 script_steps)"
    using k by auto
  have "written (final E fs) = written_log (returned (take k script_steps))"
    by (simp only: written_def lg written_trace)
  also have "\<dots> = []"
    using k by (auto simp: steps_defs returned_def written_log_def)
  finally have w: "written (final E fs) = []" .
  have fs: "files (final E fs) = fs"
    using k by (auto simp: fl steps_defs effect_def)
  have h: "history (final E fs) = take (Suc k) script_steps @ [BrowserClose, SyncPlaywrightExit]"
    by (simp add: history_def lg history_failed_step [OF k4 k22])
  have later: "\<not> attempted c (final E fs)" if "c \<in> set (drop 6 script_steps)" for c
  proof -
    have "drop 6 script_steps = drop (6 - Suc k) (drop (Suc k) script_steps)"
      using k by auto
    then have "c \<in> set (drop (Suc k) script_steps)"
      using that by (metis in_set_dropD)
    then show ?thesis by (rule not_attempted_later [OF h])
  qed
  show ?thesis using w fs ex released_after [OF h] later at_goto at_wait by blast
qed

theorem early_failure_writes_nothing_witness:
  "failed (WaitForSelector ''text=Visuals'')
     (final (env_failing (WaitForSelector ''text=Visuals'')) [main_page_png \<mapsto> png])
   \<and> written (final (env_failing (WaitForSelector ''text=Visuals'')) [main_page_png \<mapsto> png]) = []
   \<and> exit_status (env_failing (WaitForSelector ''text=Visuals'')) [main_page_png \<mapsto> png] = 1
   \<and> failed (Goto ''http://localhost:5173'')
     (final (env_failing (Goto ''http://localhost:5173'')) Map.empty)
   \<and> history (final (env_failing (Goto ''http://localhost:5173'')) Map.empty) =
       [SyncPlaywrightEnter, Launch True, NewContext, NewPage,
        Goto ''http://localhost:5173'', BrowserClose, SyncPlaywrightExit]
   \<and> \<not> attempted (WaitForSelector ''text=Visuals'')
         (final (env_failing (Goto ''http://localhost:5173'')) Map.empty)"
  using early_failure_writes_nothing
    [of "env_failing (WaitForSelector ''text=Visuals'')" "[main_page_png \<mapsto> png]"]
    early_failure_writes_nothing
    [of "env_failing (Goto ''http://localhost:5173'')" Map.empty]
  by (simp add: exec_defs env_failing_def failed_def attempted_def)

subsection \<open>Failure while acquiring the page\<close>

text \<open>
  Claim C10. \<^verbatim>\<open>browser.close()\<close> is called exactly in the runs in which \<^verbatim>\<open>context.new_page()\<close>
  returned. If \<^verbatim>\<open>browser.new_context()\<close> or \<^verbatim>\<open>context.new_page()\<close> raises, the browser has
  been launched, no step of the guarded body is attempted, \<^verbatim>\<open>browser.close()\<close> is never
  called, and the process ends with status 1.
\<close>

theorem close_only_once_page_exists:
  "(attempted BrowserClose (final E fs) \<longleftrightarrow> succeeded NewPage (final E fs))
   \<and> (failed NewContext (final E fs) \<or> failed NewPage (final E fs) \<longrightarrow>
        succeeded (Launch True) (final E fs)
        \<and> \<not> attempted BrowserClose (final E fs)
        \<and> (\<forall>c \<in> set page_steps. \<not> attempted c (final E fs))
        \<and> exit_status E fs = 1)"
proof -
  obtain n b b' where n: "n \<le> 22" and lg: "log (final E fs) = trace n b b'"
    and ex: "exit_status E fs = (if n = 22 \<and> b \<and> b' then 0 else 1)"
    by (rule final_trace)
  have in_steps: "script_steps ! k \<in> set script_steps" if "k < 22" for k
    using that by (simp add: length_script_steps)
  have close: "attempted BrowserClose (final E fs) \<longleftrightarrow> 4 \<le> n"
    by (rule attempted_trace(1) [OF n lg])
  have "succeeded (script_steps ! 3) (final E fs) \<longleftrightarrow> 3 < n"
    by (simp add: succeeded_def lg succeeded_trace in_steps step_in_take_iff)
  then have page: "succeeded NewPage (final E fs) \<longleftrightarrow> 4 \<le> n"
    by (simp add: script_steps_setup) arith
  have "failed (script_steps ! k) (final E fs) \<longleftrightarrow> n = k" if "k < 22" for k
    using that distinct_script_steps
    by (auto simp: failed_def lg failed_trace in_steps nth_eq_iff_index_eq length_script_steps)
  from this [of 2] this [of 3]
  have fails: "failed NewContext (final E fs) \<longleftrightarrow> n = 2" "failed NewPage (final E fs) \<longleftrightarrow> n = 3"
    by (simp_all add: script_steps_setup)
  have "succeeded (script_steps ! Suc 0) (final E fs) \<longleftrightarrow> Suc 0 < n"
    by (simp add: succeeded_def lg succeeded_trace in_steps step_in_take_iff)
  then have launch: "succeeded (Launch True) (final E fs) \<longleftrightarrow> 1 < n"
    by (simp add: script_steps_setup)
  have body: "\<not> attempted c (final E fs)" if "c \<in> set page_steps" "n < 4" for c
  proof
    assume "attempted c (final E fs)"
    then have "c \<in> set (take (Suc n) script_steps)"
      using that(1) page_steps_in_script attempted_trace(2) [OF n lg] by blast
    then have "4 \<le> n" using that(1) page_step_index by blast
    then show False using that(2) by simp
  qed
  show ?thesis
    using close page fails launch body ex by auto
qed

theorem close_only_once_page_exists_witness:
  "failed NewPage (final (env_failing NewPage) Map.empty)
   \<and> succeeded (Launch True) (final (env_failing NewPage) Map.empty)
   \<and> \<not> attempted BrowserClose (final (env_failing NewPage) Map.empty)
   \<and> exit_status (env_failing NewPage) Map.empty = 1"
  using close_only_once_page_exists [of "env_failing NewPage" Map.empty]
  by (simp add: exec_defs env_failing_def failed_def succeeded_def attempted_def)

subsection \<open>The upload control is absent\<close>

text \<open>
  Claim C3, as amended. If the click on \<^verbatim>\<open>text=Upload\<close> raises, the run has written exactly
  the main page, header and grid snapshots, which exist afterward; the upload form and modal
  snapshots are not written, so each is on disk afterward exactly if it was there before the
  run, with its old content; and no later step of the script is attempted: only
  \<^verbatim>\<open>browser.close()\<close> and the exit of the \<^verbatim>\<open>with\<close> block follow the click.
\<close>

theorem upload_click_fails:
  assumes "failed (Click ''text=Upload'') (final E fs)"
  shows "written (final E fs) = [main_page_png, header_png, image_grid_png]
       \<and> {main_page_png, header_png, image_grid_png} \<subseteq> dom (files (final E fs))
       \<and> files (final E fs) upload_form_png = fs upload_form_png
       \<and> files (final E fs) image_modal_png = fs image_modal_png
       \<and> history (final E fs) = take 12 script_steps @ [BrowserClose, SyncPlaywrightExit]
       \<and> (\<forall>c \<in> set (drop 12 script_steps). \<not> attempted c (final E fs))"
proof -
  have f: "failed (script_steps ! 11) (final E fs)"
    using assms by (simp only: script_steps_nth)
  obtain b b' where lg: "log (final E fs) = trace 11 b b'"
    and fl: "files (final E fs) = write_all E [] (take 11 script_steps) fs"
  proof -
    have "(11::nat) < 22" by simp
    from failed_step [OF this f] show ?thesis using that by blast
  qed
  have w: "written (final E fs) = [main_page_png, header_png, image_grid_png]"
    by (simp only: written_final [OF lg] written_take_12)
  have d: "{main_page_png, header_png, image_grid_png} \<subseteq> dom (files (final E fs))"
    by (simp add: fl dom_write_all written_take_12)
  have u: "files (final E fs) upload_form_png = fs upload_form_png"
    by (simp add: fl write_all_untouched written_take_12 path_defs)
  have m: "files (final E fs) image_modal_png = fs image_modal_png"
    by (simp add: fl write_all_untouched written_take_12 path_defs)
  have h: "history (final E fs) = take (Suc 11) script_steps @ [BrowserClose, SyncPlaywrightExit]"
    by (simp add: history_def lg history_failed_step)
  then have h12: "history (final E fs) = take 12 script_steps @ [BrowserClose, SyncPlaywrightExit]"
    by simp
  have "\<forall>c \<in> set (drop 12 script_steps). \<not> attempted c (final E fs)"
    using not_attempted_later [OF h12] by blast
  then show ?thesis using w d u m h12 by blast
qed

theorem upload_click_fails_witness:
  "failed (Click ''text=Upload'') (final (env_failing (Click ''text=Upload'')) Map.empty)
   \<and> written (final (env_failing (Click ''text=Upload'')) Map.empty)
       = [main_page_png, header_png, image_grid_png]
   \<and> files (final (env_failing (Click ''text=Upload'')) Map.empty) upload_form_png = None
   \<and> files (final (env_failing (Click ''text=Upload'')) Map.empty) image_modal_png = None"
  using upload_click_fails [of "env_failing (Click ''text=Upload'')" Map.empty]
  by (simp add: exec_defs env_failing_def failed_def)

text \<open>
  The claim as written says that the upload form snapshot does not exist afterward. The
  script never deletes a file: a snapshot left by an earlier run is still there.
\<close>

theorem stale_upload_form_counterexample:
  "failed (Click ''text=Upload'')
     (final (env_failing (Click ''text=Upload'')) [upload_form_png \<mapsto> png])
   \<and> files (final (env_failing (Click ''text=Upload'')) [upload_form_png \<mapsto> png]) upload_form_png
       \<noteq> None"
  by (simp add: exec_defs env_failing_def failed_def path_defs)

subsection \<open>A run that completes\<close>

text \<open>
  Claim C1, as amended. A run in which every navigation, wait and capture step succeeds has
  written exactly five image files, in this order: \<^verbatim>\<open>01_main_page.png\<close>, \<^verbatim>\<open>02_header.png\<close>,
  \<^verbatim>\<open>03_image_grid.png\<close>, \<^verbatim>\<open>04_upload_form.png\<close>, \<^verbatim>\<open>05_image_modal.png\<close>, all under
  \<^verbatim>\<open>jules-scratch/verification/\<close>. The five names are distinct; afterward the disk holds them
  and whatever it held before; and each of the five is non-empty: it is the PNG file its
  capture wrote.
\<close>

theorem successful_run_writes_five:
  assumes "\<forall>c \<in> set page_steps. navigation_wait_or_capture c \<longrightarrow> succeeded c (final E fs)"
  shows "written (final E fs) = capture_paths
       \<and> length capture_paths = 5
       \<and> distinct capture_paths
       \<and> dom (files (final E fs)) = dom fs \<union> set capture_paths
       \<and> (\<forall>p \<in> set capture_paths. \<exists>d. files (final E fs) p = Some d \<and> d \<noteq> [])
       \<and> (\<forall>c \<in> set page_steps. \<forall>p. capture_path c = Some p \<longrightarrow>
            files (final E fs) p
              = Some (capture_file E (takeWhile (\<lambda>d. d \<noteq> c) script_steps) c))"
proof -
  have "LocatorScreenshot ''div[role='dialog']'' image_modal_png \<in> set page_steps"
    by (simp add: page_steps_def)
  then have "succeeded (LocatorScreenshot ''div[role='dialog']'' image_modal_png) (final E fs)"
    using assms by fastforce
  then obtain b b' where lg: "log (final E fs) = trace 22 b b'"
    and fl: "files (final E fs) = write_all E [] script_steps fs"
    by (rule last_capture_succeeded)
  have tk: "take 22 script_steps = script_steps"
    by (simp add: length_script_steps)
  have w: "written (final E fs) = capture_paths"
    by (simp only: written_final [OF lg] tk written_all_steps)
  have d: "dom (files (final E fs)) = dom fs \<union> set capture_paths"
    by (simp only: fl dom_write_all written_all_steps)
  have all: "succeeded c (final E fs)" if "c \<in> set page_steps" for c
  proof -
    have "c \<in> set script_steps" using that page_steps_in_script by blast
    then show ?thesis by (simp add: succeeded_def lg succeeded_trace tk)
  qed
  have content: "files (final E fs) p
      = Some (capture_file E (takeWhile (\<lambda>d. d \<noteq> c) script_steps) c)"
    if "c \<in> set page_steps" "capture_path c = Some p" for c p
    using file_of_capture [OF that, of E fs] all [OF that(1)] by simp
  have ne: "\<exists>d. files (final E fs) p = Some d \<and> d \<noteq> []" if p: "p \<in> set capture_paths" for p
  proof -
    from p have "p \<in> set (written_log (returned script_steps))"
      by (simp only: written_all_steps)
    from write_all_rendered [OF this, of E "[]" fs]
    show ?thesis by (auto simp: fl capture_file_nonempty)
  qed
  show ?thesis
    using w d ne content distinct_capture_paths by (simp add: capture_paths_def)
qed

theorem successful_run_writes_five_witness:
  "log (final (env_failing BrowserClose) Map.empty)
     = returned script_steps @ [(BrowserClose, False), (SyncPlaywrightExit, True)]
   \<and> exit_status (env_failing BrowserClose) Map.empty = 1
   \<and> written (final (env_failing BrowserClose) Map.empty) = capture_paths
   \<and> dom (files (final (env_failing BrowserClose) Map.empty)) = set capture_paths
   \<and> files (final (env_failing BrowserClose) Map.empty) image_modal_png
       = Some (png_signature @ png)"
  using successful_run_writes_five [of "env_failing BrowserClose" Map.empty]
  by (simp add: exec_defs env_failing_def capture_paths_def succeeded_def steps_defs
      returned_def)

text \<open>
  The claim as written counts six files; the script makes five captures. In the run below
  every call returns.
\<close>

theorem six_files_counterexample:
  "log (final env_all_ok Map.empty) = returned (script_steps @ [BrowserClose, SyncPlaywrightExit])
   \<and> exit_status env_all_ok Map.empty = 0
   \<and> length (written (final env_all_ok Map.empty)) \<noteq> 6
   \<and> card (dom (files (final env_all_ok Map.empty))) \<noteq> 6"
proof -
  have "card (set capture_paths) = 5"
    using distinct_capture_paths by (simp add: distinct_card capture_paths_def)
  moreover have "exit_status env_all_ok Map.empty = 0"
    by (simp add: exec_defs env_all_ok_def)
  moreover have "log (final env_all_ok Map.empty)
      = returned (script_steps @ [BrowserClose, SyncPlaywrightExit])"
    by (simp add: exec_defs env_all_ok_def steps_defs returned_def)
  moreover have "written (final env_all_ok Map.empty) = capture_paths"
    by (simp add: exec_defs env_all_ok_def written_def written_log_def capture_paths_def)
  moreover have "dom (files (final env_all_ok Map.empty)) = set capture_paths"
    by (simp add: exec_defs env_all_ok_def capture_paths_def) blast
  ultimately show ?thesis by (simp add: capture_paths_def)
qed

subsection \<open>The interaction sequence\<close>

text \<open>
  Claim C6. A run that ends with status 0 has made, on the one page it created, exactly these
  interaction calls in this order: load \<^verbatim>\<open>http://localhost:5173\<close>; wait for \<^verbatim>\<open>text=Visuals\<close>;
  locate \<^verbatim>\<open>header\<close>; locate \<^verbatim>\<open>.grid\<close>; click \<^verbatim>\<open>text=Upload\<close>; wait for
  \<^verbatim>\<open>text=Upload Images\<close>; locate \<^verbatim>\<open>main\<close>; click \<^verbatim>\<open>text=Gallery\<close>; wait for \<^verbatim>\<open>.grid\<close>;
  locate the grid's first child and click it; wait for \<^verbatim>\<open>h2\<close>; locate the element with the
  dialog role. The whole run is the script's calls in program order, then the two cleanup
  calls, and every call returned.
\<close>

theorem interaction_sequence:
  assumes "exit_status E fs = 0"
  shows "interactions (final E fs) =
          [Goto ''http://localhost:5173'',
           WaitForSelector ''text=Visuals'',
           Locator ''header'',
           Locator ''.grid'',
           Click ''text=Upload'',
           WaitForSelector ''text=Upload Images'',
           Locator ''main'',
           Click ''text=Gallery'',
           WaitForSelector ''.grid'',
           Locator ''.grid > div:first-child'',
           LocatorClick ''.grid > div:first-child'',
           WaitForSelector ''h2'',
           Locator ''div[role='dialog']'']
       \<and> history (final E fs) = script_steps @ [BrowserClose, SyncPlaywrightExit]
       \<and> log (final E fs) = returned (history (final E fs))
       \<and> count_list (history (final E fs)) NewContext = 1
       \<and> count_list (history (final E fs)) NewPage = 1"
proof -
  have lg: "log (final E fs) = trace 22 True True"
    using assms by (rule successful_trace)
  have lg': "log (final E fs) = returned (script_steps @ [BrowserClose, SyncPlaywrightExit])"
    by (simp add: lg trace_def guarded_trace_def outcome_log_def length_script_steps returned_def)
  have h: "history (final E fs) = script_steps @ [BrowserClose, SyncPlaywrightExit]"
    by (simp only: history_def lg' history_returned)
  show ?thesis
    unfolding interactions_def h lg'
    by (simp add: steps_defs)
qed

theorem interaction_sequence_witness:
  "exit_status env_all_ok Map.empty = 0
   \<and> length (interactions (final env_all_ok Map.empty)) = 13
   \<and> history (final env_all_ok Map.empty) = script_steps @ [BrowserClose, SyncPlaywrightExit]"
  using interaction_sequence [of env_all_ok Map.empty]
  by (simp add: exec_defs env_all_ok_def interactions_def steps_defs returned_def)

subsection \<open>Failures are not recovered\<close>

text \<open>
  Claim C8. If any step of the guarded body (a navigation, wait, click, locator or capture
  call) raises, nothing resumes the script: the failing call is followed only by
  \<^verbatim>\<open>browser.close()\<close> and the exit of the \<^verbatim>\<open>with\<close> block, and the process ends with status 1.
  The files written are exactly the captures that precede the failing call in the script;
  afterward each of them is on disk with the content its capture wrote, and every other path
  is as it was before the run.
\<close>

theorem failure_propagates:
  assumes "c \<in> set page_steps" and "failed c (final E fs)"
  shows "exit_status E fs = 1
       \<and> dropWhile (\<lambda>d. d \<noteq> c) (history (final E fs)) = [c, BrowserClose, SyncPlaywrightExit]
       \<and> written (final E fs) = written_log (returned (takeWhile (\<lambda>d. d \<noteq> c) script_steps))
       \<and> set (written (final E fs)) \<subseteq> dom (files (final E fs))
       \<and> (\<forall>d \<in> set (takeWhile (\<lambda>d. d \<noteq> c) script_steps). \<forall>p. capture_path d = Some p \<longrightarrow>
            p \<in> set (written (final E fs))
            \<and> files (final E fs) p
                = Some (capture_file E (takeWhile (\<lambda>x. x \<noteq> d) script_steps) d))
       \<and> (\<forall>p. p \<notin> set (written (final E fs)) \<longrightarrow> files (final E fs) p = fs p)"
proof -
  obtain k where k4: "4 \<le> k" and k22: "k < 22" and c: "script_steps ! k = c"
    using assms(1) by (rule page_step_nth)
  have f: "failed (script_steps ! k) (final E fs)"
    using assms(2) by (simp only: c)
  obtain b b' where lg: "log (final E fs) = trace k b b'"
    and fl: "files (final E fs) = write_all E [] (take k script_steps) fs"
    and ex: "exit_status E fs = 1"
    using failed_step [OF k22 f] by blast
  have h: "history (final E fs) = take (Suc k) script_steps @ [BrowserClose, SyncPlaywrightExit]"
    by (simp add: history_def lg history_failed_step [OF k4 k22])
  have d: "dropWhile (\<lambda>d. d \<noteq> c) (history (final E fs)) = [c, BrowserClose, SyncPlaywrightExit]"
    unfolding h c [symmetric]
    using k22 by (simp only: dropWhile_distinct_nth distinct_script_steps length_script_steps)
  have tw: "takeWhile (\<lambda>d. d \<noteq> c) script_steps = take k script_steps"
    unfolding c [symmetric]
    using k22 by (simp only: takeWhile_distinct_nth distinct_script_steps length_script_steps)
  have w: "written (final E fs) = written_log (returned (take k script_steps))"
    by (rule written_final [OF lg])
  have sub: "set (written (final E fs)) \<subseteq> dom (files (final E fs))"
    by (simp add: w fl dom_write_all)
  have un: "files (final E fs) p = fs p" if "p \<notin> set (written (final E fs))" for p
    using that by (simp add: w fl write_all_untouched)
  have kept: "p \<in> set (written (final E fs))
      \<and> files (final E fs) p = Some (capture_file E (takeWhile (\<lambda>x. x \<noteq> d) script_steps) d)"
    if dk: "d \<in> set (take k script_steps)" and dp: "capture_path d = Some p" for d p
  proof -
    have ds: "d \<in> set script_steps" using dk by (meson in_set_takeD)
    then have dpage: "d \<in> set page_steps" using dp by (rule capture_in_page)
    have "succeeded d (final E fs)"
      using dk ds by (simp add: succeeded_def lg succeeded_trace)
    then have "files (final E fs) p = Some (capture_file E (takeWhile (\<lambda>x. x \<noteq> d) script_steps) d)"
      using file_of_capture [OF dpage dp, of E fs] by simp
    moreover have "p \<in> set (written (final E fs))"
      using dk dp by (auto simp: w written_log_returned_set)
    ultimately show ?thesis by simp
  qed
  show ?thesis using ex d w sub un kept by (simp add: tw)
qed

theorem failure_propagates_witness:
  "WaitForSelector ''h2'' \<in> set page_steps
   \<and> failed (WaitForSelector ''h2'') (final (env_failing (WaitForSelector ''h2'')) Map.empty)
   \<and> exit_status (env_failing (WaitForSelector ''h2'')) Map.empty = 1
   \<and> written (final (env_failing (WaitForSelector ''h2'')) Map.empty)
       = [main_page_png, header_png, image_grid_png, upload_form_png]
   \<and> LocatorScreenshot ''main'' upload_form_png
         \<in> set (takeWhile (\<lambda>d. d \<noteq> WaitForSelector ''h2'') script_steps)
   \<and> files (final (env_failing (WaitForSelector ''h2'')) Map.empty) upload_form_png
       = Some (png_signature @ png)
   \<and> files (final (env_failing (WaitForSelector ''h2'')) Map.empty) image_modal_png = None"
  using failure_propagates [of "WaitForSelector ''h2''" "env_failing (WaitForSelector ''h2'')" Map.empty]
  by (simp add: exec_defs env_failing_def failed_def steps_defs written_def written_log_def
      path_defs)

subsection \<open>Sequential execution, no retry\<close>

text \<open>
  Claim C7. In every run the calls are made one after another in program order: a step of the
  script is attempted only after every call before it has returned. No call is made twice,
  so each wait is attempted at most once and never retried. If a wait raises, the only calls
  after it are \<^verbatim>\<open>browser.close()\<close> and the exit of the \<^verbatim>\<open>with\<close> block: no interaction, wait or
  capture follows.
\<close>

theorem sequential_no_retry:
  "distinct (history (final E fs))
   \<and> (\<forall>s. count_list (history (final E fs)) (WaitForSelector s) \<le> 1)
   \<and> (\<forall>i j. i < j \<and> j < length (log (final E fs))
         \<and> fst (log (final E fs) ! j) \<in> set script_steps
        \<longrightarrow> log (final E fs) ! i = (script_steps ! i, True))
   \<and> (\<forall>s. failed (WaitForSelector s) (final E fs) \<longrightarrow>
         dropWhile (\<lambda>c. c \<noteq> WaitForSelector s) (history (final E fs))
           = [WaitForSelector s, BrowserClose, SyncPlaywrightExit])"
proof -
  obtain n b b' where n: "n \<le> 22" and lg: "log (final E fs) = trace n b b'"
    and ex: "exit_status E fs = (if n = 22 \<and> b \<and> b' then 0 else 1)"
    by (rule final_trace)
  have d: "distinct (history (final E fs))"
    by (simp only: history_def lg distinct_history [OF n])
  have once: "count_list (history (final E fs)) (WaitForSelector s) \<le> 1" for s
    using d by (rule distinct_count_list)
  have order: "log (final E fs) ! i = (script_steps ! i, True)"
    if "i < j" "j < length (log (final E fs))" "fst (log (final E fs) ! j) \<in> set script_steps"
    for i j
  proof -
    have "\<not> n < j"
      using trace_nth_cleanup [of n j b b'] that(2,3) n by (auto simp: lg)
    then have "i < n" using that(1) by simp
    then show ?thesis by (simp add: lg trace_nth_returned n)
  qed
  have wait: "dropWhile (\<lambda>c. c \<noteq> WaitForSelector s) (history (final E fs))
           = [WaitForSelector s, BrowserClose, SyncPlaywrightExit]"
    if "failed (WaitForSelector s) (final E fs)" for s
  proof -
    have "(WaitForSelector s, False) \<in> set (trace n b b')"
      using that by (simp add: failed_def lg)
    then have "(WaitForSelector s, False) \<in> set (outcome_log script_steps n)"
      by (auto simp: trace_def guarded_trace_def split: if_splits)
    then have k: "n < 22" "script_steps ! n = WaitForSelector s"
      by (simp_all add: failed_outcome_log length_script_steps)
    then have "WaitForSelector s \<in> set script_steps"
      by (metis length_script_steps nth_mem)
    then have "WaitForSelector s \<in> set page_steps"
      by (auto simp: script_steps_def setup_steps_def)
    from failing_step_release [OF this that] show ?thesis .
  qed
  show ?thesis using d once order wait by blast
qed

theorem sequential_no_retry_witness:
  "failed (WaitForSelector ''text=Upload Images'')
     (final (env_failing (WaitForSelector ''text=Upload Images'')) Map.empty)
   \<and> history (final (env_failing (WaitForSelector ''text=Upload Images'')) Map.empty)
       = take 13 script_steps @ [BrowserClose, SyncPlaywrightExit]
   \<and> dropWhile (\<lambda>c. c \<noteq> WaitForSelector ''text=Upload Images'')
         (history (final (env_failing (WaitForSelector ''text=Upload Images'')) Map.empty))
       = [WaitForSelector ''text=Upload Images'', BrowserClose, SyncPlaywrightExit]"
  using sequential_no_retry [of "env_failing (WaitForSelector ''text=Upload Images'')" Map.empty]
  by (simp add: exec_defs env_failing_def failed_def steps_defs)

subsection \<open>When a capture is written\<close>

text \<open>
  Claim C4, as amended. For every run and every capture of the script, the capture's file is
  written exactly if the capture call itself returned; and the capture call returns exactly
  if every call before it in the script returned and the capture does not raise when it is
  then made. If the capture returned, the file at its path holds afterward the image that
  capture wrote; if it did not, the path is on disk as it was before the run. So no file is
  written when a step before its capture failed; but a file is skipped, although the wait or
  navigation before it succeeded, when the capture call itself raises.
\<close>

theorem capture_written_iff:
  assumes "c \<in> set page_steps" and "capture_path c = Some p"
  shows "(p \<in> set (written (final E fs)) \<longleftrightarrow> succeeded c (final E fs))
       \<and> (succeeded c (final E fs) \<longleftrightarrow>
            (\<forall>d \<in> set (takeWhile (\<lambda>d. d \<noteq> c) script_steps). succeeded d (final E fs))
            \<and> succeeds E (takeWhile (\<lambda>d. d \<noteq> c) script_steps) c)
       \<and> (succeeded c (final E fs) \<longrightarrow>
            files (final E fs) p
              = Some (capture_file E (takeWhile (\<lambda>d. d \<noteq> c) script_steps) c))
       \<and> (\<not> succeeded c (final E fs) \<longrightarrow> files (final E fs) p = fs p)
       \<and> ((\<exists>d \<in> set (takeWhile (\<lambda>d. d \<noteq> c) script_steps). failed d (final E fs)) \<longrightarrow>
            p \<notin> set (written (final E fs)) \<and> files (final E fs) p = fs p)"
proof -
  define n where "n = successes E [] script_steps"
  obtain b b' where lg: "log (final E fs) = trace n b b'"
    unfolding n_def by (rule final_trace_successes)
  obtain k where k4: "4 \<le> k" and k22: "k < 22" and c: "script_steps ! k = c"
    using assms(1) by (rule page_step_nth)
  have cs: "c \<in> set script_steps"
    using assms(1) page_steps_in_script by blast
  have tw: "takeWhile (\<lambda>d. d \<noteq> c) script_steps = take k script_steps"
    unfolding c [symmetric]
    using k22 by (simp only: takeWhile_distinct_nth distinct_script_steps length_script_steps)
  have suc: "succeeded d (final E fs) \<longleftrightarrow> d \<in> set (take n script_steps)"
    if "d \<in> set script_steps" for d
    using that by (simp add: succeeded_def lg succeeded_trace)
  have sc: "succeeded c (final E fs) \<longleftrightarrow> k < n"
    using suc [OF cs] step_in_take_iff [OF k22, of n] by (simp add: c)
  have wr: "p \<in> set (written (final E fs)) \<longleftrightarrow> succeeded c (final E fs)"
  proof
    assume "p \<in> set (written (final E fs))"
    then obtain c' where c': "c' \<in> set (take n script_steps)" "capture_path c' = Some p"
      by (auto simp: written_final [OF lg] written_log_returned_set)
    then have "c' \<in> set script_steps" by (meson in_set_takeD)
    then have "c' = c" using cs c'(2) assms(2) by (rule capture_path_inj)
    then show "succeeded c (final E fs)" using c'(1) suc [OF cs] by simp
  next
    assume "succeeded c (final E fs)"
    then have "c \<in> set (take n script_steps)" using suc [OF cs] by simp
    then show "p \<in> set (written (final E fs))"
      using assms(2) by (auto simp: written_final [OF lg] written_log_returned_set)
  qed
  have before: "(\<forall>d \<in> set (take k script_steps). succeeded d (final E fs)) \<longleftrightarrow> k \<le> n"
  proof -
    have "(\<forall>d \<in> set (take k script_steps). succeeded d (final E fs))
        \<longleftrightarrow> set (take k script_steps) \<subseteq> set (take n script_steps)"
      using suc by (meson in_set_takeD subset_iff)
    then show ?thesis by (simp only: take_subset_iff [OF k22])
  qed
  have "k < n \<longleftrightarrow> k \<le> n \<and> succeeds E ([] @ take k script_steps) (script_steps ! k)"
    unfolding n_def using k22 by (intro successes_take) (simp add: length_script_steps)
  then have ret: "succeeded c (final E fs) \<longleftrightarrow>
      (\<forall>d \<in> set (take k script_steps). succeeded d (final E fs))
      \<and> succeeds E (take k script_steps) c"
    by (simp add: sc before c)
  have fl: "p \<notin> set (written (final E fs))"
    if "d \<in> set (take k script_steps)" "failed d (final E fs)" for d
  proof -
    have ds: "d \<in> set script_steps" using that(1) by (meson in_set_takeD)
    then have "script_steps ! n = d" "n < 22"
      using that(2) by (simp_all add: failed_def lg failed_trace)
    then have "n < k" using that(1) step_in_take_iff [of n k] by simp
    then show ?thesis using wr sc by simp
  qed
  have disk: "files (final E fs) p =
     (if succeeded c (final E fs)
      then Some (capture_file E (takeWhile (\<lambda>d. d \<noteq> c) script_steps) c)
      else fs p)"
    using assms by (rule file_of_capture)
  have wr_tw: "(succeeded c (final E fs) \<longleftrightarrow>
            (\<forall>d \<in> set (takeWhile (\<lambda>d. d \<noteq> c) script_steps). succeeded d (final E fs))
            \<and> succeeds E (takeWhile (\<lambda>d. d \<noteq> c) script_steps) c)"
    using ret by (simp only: tw)
  have fl_tw: "p \<notin> set (written (final E fs)) \<and> files (final E fs) p = fs p"
    if "\<exists>d \<in> set (takeWhile (\<lambda>d. d \<noteq> c) script_steps). failed d (final E fs)"
  proof -
    from that obtain d where "d \<in> set (take k script_steps)" "failed d (final E fs)"
      by (auto simp: tw)
    then have "p \<notin> set (written (final E fs))" by (rule fl)
    then show ?thesis using wr disk by simp
  qed
  show ?thesis using wr wr_tw disk fl_tw by simp
qed

theorem capture_written_iff_witness:
  "LocatorScreenshot ''main'' upload_form_png \<in> set page_steps
   \<and> capture_path (LocatorScreenshot ''main'' upload_form_png) = Some upload_form_png
   \<and> succeeded (LocatorScreenshot ''main'' upload_form_png) (final env_all_ok Map.empty)
   \<and> upload_form_png \<in> set (written (final env_all_ok Map.empty))
   \<and> WaitForSelector ''text=Upload Images''
         \<in> set (takeWhile (\<lambda>d. d \<noteq> LocatorScreenshot ''main'' upload_form_png) script_steps)
   \<and> files (final env_all_ok Map.empty) upload_form_png = Some (png_signature @ png)
   \<and> failed (WaitForSelector ''text=Upload Images'')
         (final (env_failing (WaitForSelector ''text=Upload Images'')) Map.empty)
   \<and> upload_form_png
         \<notin> set (written (final (env_failing (WaitForSelector ''text=Upload Images'')) Map.empty))
   \<and> files (final (env_failing (WaitForSelector ''text=Upload Images'')) Map.empty)
         upload_form_png = None"
  using capture_written_iff
    [of "LocatorScreenshot ''main'' upload_form_png" upload_form_png env_all_ok Map.empty]
    capture_written_iff
    [of "LocatorScreenshot ''main'' upload_form_png" upload_form_png
        "env_failing (WaitForSelector ''text=Upload Images'')" Map.empty]
  by (simp add: exec_defs env_all_ok_def env_failing_def succeeded_def failed_def steps_defs
      written_def written_log_def path_defs)

text \<open>
  The claim as written ties each file to the step before its capture alone. On a page that
  shows the text \<^verbatim>\<open>Visuals\<close> but has no \<^verbatim>\<open>header\<close> element, the wait and the locator call
  before the header capture both return, the capture itself raises, and no header file is
  written.
\<close>

theorem capture_skipped_counterexample:
  "succeeded (WaitForSelector ''text=Visuals'')
     (final (env_failing (LocatorScreenshot ''header'' header_png)) Map.empty)
   \<and> succeeded (Locator ''header'')
     (final (env_failing (LocatorScreenshot ''header'' header_png)) Map.empty)
   \<and> header_png \<notin> set (written (final (env_failing (LocatorScreenshot ''header'' header_png)) Map.empty))
   \<and> files (final (env_failing (LocatorScreenshot ''header'' header_png)) Map.empty) header_png = None"
  by (simp add: exec_defs env_failing_def succeeded_def written_def written_log_def path_defs)

subsection \<open>Running the script twice\<close>

text \<open>
  Claim C9. Running the script again in the same environment leaves the disk exactly as the
  first run left it: every capture writes to its fixed path and replaces the file there.
  When only the outcomes of the calls are the same and the rendered images differ, the second
  run still leaves the same set of file names. Whatever the two environments, the names on
  disk after two runs are among those present before and the five fixed names, and every file
  the second run writes holds what that run would have written into an empty directory.
\<close>

theorem rerun_idempotent:
  "files (final E (files (final E fs))) = files (final E fs)
   \<and> (succeeds E2 = succeeds E \<longrightarrow>
        dom (files (final E2 (files (final E fs)))) = dom (files (final E fs)))
   \<and> dom (files (final E2 (files (final E fs)))) \<subseteq> dom fs \<union> set capture_paths
   \<and> (\<forall>p \<in> set (written (final E2 (files (final E fs)))).
        files (final E2 (files (final E fs))) p = files (final E2 Map.empty) p)"
proof -
  let ?n = "successes E [] script_steps"
  let ?n2 = "successes E2 [] script_steps"
  let ?W = "write_all E [] (take ?n script_steps)"
  let ?W2 = "write_all E2 [] (take ?n2 script_steps)"
  have idem: "?W (?W fs) = ?W fs"
  proof -
    have "?W (?W fs) = ?W fs ++ ?W Map.empty"
      by (rule write_all_overlay)
    also have "\<dots> = (fs ++ ?W Map.empty) ++ ?W Map.empty"
      by (subst write_all_overlay) simp
    also have "\<dots> = fs ++ ?W Map.empty"
      by (rule ext) (simp add: map_add_def split: option.splits)
    also have "\<dots> = ?W fs"
      by (rule write_all_overlay [symmetric])
    finally show ?thesis .
  qed
  have names: "dom (?W2 (?W fs)) = dom (?W fs)" if "succeeds E2 = succeeds E"
  proof -
    have "?n2 = ?n" using that by (rule successes_cong)
    then show ?thesis by (auto simp: dom_write_all)
  qed
  have bound: "dom (?W2 (?W fs)) \<subseteq> dom fs \<union> set capture_paths"
    using written_log_subset [of ?n] written_log_subset [of ?n2]
    by (auto simp: dom_write_all)
  have over: "?W2 (?W fs) p = ?W2 Map.empty p"
    if "p \<in> set (written (final E2 (?W fs)))" for p
  proof -
    obtain b b' where lg: "log (final E2 (?W fs)) = trace ?n2 b b'"
      by (rule final_trace_successes)
    from that have "p \<in> set (written_log (returned (take ?n2 script_steps)))"
      by (simp only: written_final [OF lg])
    then have "p \<in> dom (?W2 Map.empty)"
      by (simp add: dom_write_all)
    then show ?thesis
      by (subst write_all_overlay) (auto simp: map_add_def split: option.splits)
  qed
  show ?thesis
    using idem names bound over by (simp add: files_final)
qed

theorem rerun_idempotent_witness:
  "succeeds (env_all_ok\<lparr>rendered := (\<lambda>h c. png @ png)\<rparr>) = succeeds env_all_ok
   \<and> dom (files (final (env_all_ok\<lparr>rendered := (\<lambda>h c. png @ png)\<rparr>)
              (files (final env_all_ok Map.empty))))
       = dom (files (final env_all_ok Map.empty))
   \<and> image_modal_png \<in> set (written (final (env_all_ok\<lparr>rendered := (\<lambda>h c. png @ png)\<rparr>)
              (files (final env_all_ok Map.empty))))
   \<and> files (final env_all_ok Map.empty) image_modal_png = Some (png_signature @ png)
   \<and> files (final (env_all_ok\<lparr>rendered := (\<lambda>h c. png @ png)\<rparr>)
              (files (final env_all_ok Map.empty))) image_modal_png
       = Some (png_signature @ png @ png)"
  using rerun_idempotent
    [of env_all_ok Map.empty "env_all_ok\<lparr>rendered := (\<lambda>h c. png @ png)\<rparr>"]
  by (simp add: exec_defs env_all_ok_def written_def written_log_def)

end
